theory Spec2Isabelle
  imports Complex_Main "HOL-Library.AList"
begin

section \<open>Coin Collector: authoritative server and interpolating client\<close>

text \<open>
  A shallow embedding of \<^verbatim>\<open>server.py\<close> (class \<^verbatim>\<open>GameServer\<close>) and of
  \<^verbatim>\<open>client.py\<close> (class \<^verbatim>\<open>GameClient\<close>).

  Conventions of the embedding.
  \<^item> Python numbers are modelled as exact numbers: coordinates, times and \<open>dt\<close> are
    \<open>real\<close>, scores and identities are \<open>int\<close>/\<open>nat\<close>. Rounding of IEEE doubles is not
    modelled; every statement below is a statement about exact arithmetic.
  \<^item> A Python dictionary whose iteration order matters (the server's \<^verbatim>\<open>players\<close> and
    \<^verbatim>\<open>clients\<close>) is an association list in insertion order, read with \<open>map_of\<close> and
    written with \<open>AList.update\<close> (an existing key keeps its place, a new key goes to the
    end, as in Python). A dictionary that is only looked up (the decoded \<^verbatim>\<open>players\<close>
    object of a snapshot on the client) is a map.
  \<^item> \<^verbatim>\<open>time.time()\<close> and \<^verbatim>\<open>random.randint\<close> are arguments of the operation that
    calls them.
  \<^item> A raised exception is a value \<open>Inl e\<close> of a sum type.
\<close>

subsection \<open>JSON values\<close>

text \<open>The values that \<^verbatim>\<open>json.loads\<close> returns and \<^verbatim>\<open>json.dumps\<close> writes.\<close>

datatype json =
    JNull
  | JBool bool
  | JNum real
  | JStr string
  | JArr "json list"
  | JObj "(string \<times> json) list"

text \<open>Python's truth value of a decoded JSON value (\<^verbatim>\<open>if move_dir:\<close>).\<close>

fun truthy :: "json \<Rightarrow> bool" where
  "truthy JNull = False"
| "truthy (JBool b) = b"
| "truthy (JNum r) = (r \<noteq> 0)"
| "truthy (JStr s) = (s \<noteq> [])"
| "truthy (JArr js) = (js \<noteq> [])"
| "truthy (JObj kvs) = (kvs \<noteq> [])"

text \<open>The keys of a JSON object, in order; \<open>None\<close> for a value that is not an object.\<close>

fun jkeys :: "json \<Rightarrow> string list option" where
  "jkeys (JObj kvs) = Some (map fst kvs)"
| "jkeys _ = None"

text \<open>The member of a JSON object under a key.\<close>

fun jget :: "json \<Rightarrow> string \<Rightarrow> json option" where
  "jget (JObj kvs) k = map_of kvs k"
| "jget _ k = None"

text \<open>\<^verbatim>\<open>json.dumps\<close> writes an integer dictionary key as its decimal string.\<close>

definition digits :: string where
  "digits = ''0123456789''"

fun str_nat :: "nat \<Rightarrow> string" where
  "str_nat n = (if n < 10 then [digits ! n] else str_nat (n div 10) @ [digits ! (n mod 10)])"

subsection \<open>Configuration (\<^verbatim>\<open>server.py\<close>, lines 8-18; \<^verbatim>\<open>client.py\<close>, lines 9-13)\<close>

definition ARTIFICIAL_LATENCY :: real where "ARTIFICIAL_LATENCY = 0.2"
definition MAP_WIDTH :: real where "MAP_WIDTH = 800"
definition MAP_HEIGHT :: real where "MAP_HEIGHT = 600"
definition PLAYER_SPEED :: real where "PLAYER_SPEED = 300"
definition PLAYER_SIZE :: real where "PLAYER_SIZE = 20"
definition COIN_SIZE :: real where "COIN_SIZE = 10"
definition COIN_SPAWN_RATE :: real where "COIN_SPAWN_RATE = 3.0"
definition INTERPOLATION_OFFSET :: real where "INTERPOLATION_OFFSET = 0.1"

subsection \<open>The World Model (\<^verbatim>\<open>GameServer.__init__\<close>)\<close>

text \<open>
  A player is the dictionary \<^verbatim>\<open>{x, y, color, score, input}\<close> that \<^verbatim>\<open>register\<close> creates.
  The field \<open>input\<close> is \<open>None\<close> when the dictionary has no key \<^verbatim>\<open>"input"\<close> and
  \<open>Some v\<close> when it has one with value \<open>v\<close> (\<open>Some JNull\<close> for Python's \<^verbatim>\<open>None\<close>): the
  server reads it with \<^verbatim>\<open>p.get('input', None)\<close>, and the client builds player
  dictionaries without that key.
\<close>

record player =
  x :: real
  y :: real
  color :: "int \<times> int \<times> int"
  score :: int
  input :: "json option"

record coin =
  coin_id :: nat
  coin_x :: real
  coin_y :: real

type_synonym websocket = nat

record server =
  clients :: "(websocket \<times> nat) list"
  players :: "(nat \<times> player) list"
  coins :: "coin list"
  coin_counter :: nat
  last_coin_spawn :: real
  running :: bool
  start_time :: real
  next_player_id :: nat

datatype error = KeyError

text \<open>The two arguments are the two readings of \<^verbatim>\<open>time.time()\<close>.\<close>

definition init :: "real \<Rightarrow> real \<Rightarrow> server" where
  "init now now' = \<lparr>clients = [], players = [], coins = [], coin_counter = 0,
     last_coin_spawn = now, running = False, start_time = now', next_player_id = 1\<rparr>"

subsection \<open>\<^verbatim>\<open>spawn_coin\<close> (lines 32-39)\<close>

text \<open>The two \<^verbatim>\<open>random.randint\<close> results are the argument \<open>rnd\<close>.\<close>

definition spawn_coin :: "server \<Rightarrow> int \<times> int \<Rightarrow> server" where
  "spawn_coin s rnd =
     (let coin = \<lparr>coin_id = coin_counter s, coin_x = real_of_int (fst rnd),
                  coin_y = real_of_int (snd rnd)\<rparr>
      in s\<lparr>coins := coins s @ [coin], coin_counter := coin_counter s + 1\<rparr>)"

subsection \<open>\<^verbatim>\<open>check_collisions\<close> (lines 41-62)\<close>

text \<open>Lines 45-46: the wall clamp.\<close>

definition wall_collisions :: "player \<Rightarrow> player" where
  "wall_collisions p =
     (let p = p\<lparr>x := max PLAYER_SIZE (min (MAP_WIDTH - PLAYER_SIZE) (x p))\<rparr>;
          p = p\<lparr>y := max PLAYER_SIZE (min (MAP_HEIGHT - PLAYER_SIZE) (y p))\<rparr>
      in p)"

text \<open>Lines 51-55: the test that decides whether the player collects the coin.\<close>

definition collects :: "player \<Rightarrow> coin \<Rightarrow> bool" where
  "collects p coin =
     (let dx = x p - coin_x coin;
          dy = y p - coin_y coin;
          distance = sqrt (dx * dx + dy * dy)
      in distance < PLAYER_SIZE + COIN_SIZE)"

text \<open>
  Lines 49-60: the loop over \<^verbatim>\<open>self.coins\<close>, with the player dictionary and the list
  \<^verbatim>\<open>remaining_coins\<close> as loop state.
\<close>

fun coin_loop :: "player \<Rightarrow> coin list \<Rightarrow> coin list \<Rightarrow> player \<times> coin list" where
  "coin_loop p remaining_coins [] = (p, remaining_coins)"
| "coin_loop p remaining_coins (coin # rest) =
     (if collects p coin
      then coin_loop (p\<lparr>score := score p + 1\<rparr>) remaining_coins rest
      else coin_loop p (remaining_coins @ [coin]) rest)"

definition check_collisions :: "server \<Rightarrow> nat \<Rightarrow> error + server" where
  "check_collisions s player_id =
     (case map_of (players s) player_id of
        None \<Rightarrow> Inl KeyError
      | Some p0 \<Rightarrow>
          (let p = wall_collisions p0;
               (p, remaining_coins) = coin_loop p [] (coins s)
           in Inr (s\<lparr>players := AList.update player_id p (players s),
                      coins := remaining_coins\<rparr>)))"

subsection \<open>\<^verbatim>\<open>update\<close> (lines 64-83)\<close>

text \<open>Lines 76-81: the movement of one player from its stored input.\<close>

definition move :: "real \<Rightarrow> player \<Rightarrow> player" where
  "move dt p =
     (let move_dir = (case input p of None \<Rightarrow> JNull | Some v \<Rightarrow> v)
      in if truthy move_dir then
           if move_dir = JStr ''UP'' then p\<lparr>y := y p - PLAYER_SPEED * dt\<rparr>
           else if move_dir = JStr ''DOWN'' then p\<lparr>y := y p + PLAYER_SPEED * dt\<rparr>
           else if move_dir = JStr ''LEFT'' then p\<lparr>x := x p - PLAYER_SPEED * dt\<rparr>
           else if move_dir = JStr ''RIGHT'' then p\<lparr>x := x p + PLAYER_SPEED * dt\<rparr>
           else p
         else p)"

text \<open>
  Lines 75-83: the loop over \<^verbatim>\<open>self.players.items()\<close>. The loop variable \<open>p\<close> is the
  player's own dictionary, changed in place; \<^verbatim>\<open>check_collisions\<close> then reads it back
  through \<^verbatim>\<open>self.players[pid]\<close>.
\<close>

fun players_loop :: "real \<Rightarrow> (nat \<times> player) list \<Rightarrow> server \<Rightarrow> error + server" where
  "players_loop dt [] s = Inr s"
| "players_loop dt ((pid, p) # rest) s =
     (case check_collisions (s\<lparr>players := AList.update pid (move dt p) (players s)\<rparr>) pid of
        Inl e \<Rightarrow> Inl e
      | Inr s' \<Rightarrow> players_loop dt rest s')"

text \<open>Lines 68-72: the time-gated spawn; \<open>now\<close> is \<^verbatim>\<open>time.time()\<close>.\<close>

definition spawn_phase :: "server \<Rightarrow> real \<Rightarrow> int \<times> int \<Rightarrow> server" where
  "spawn_phase s now rnd =
     (if now - last_coin_spawn s > COIN_SPAWN_RATE
      then (spawn_coin s rnd)\<lparr>last_coin_spawn := now\<rparr>
      else s)"

definition update :: "server \<Rightarrow> real \<Rightarrow> real \<Rightarrow> int \<times> int \<Rightarrow> error + server" where
  "update s dt now rnd =
     (if length (players s) < 2 then Inr s
      else let s1 = spawn_phase s now rnd
           in players_loop dt (players s1) s1)"

subsection \<open>\<^verbatim>\<open>broadcast_state\<close> (lines 85-99)\<close>

text \<open>What \<^verbatim>\<open>json.dumps\<close> writes for a player dictionary, a coin and the state.\<close>

definition dumps_player :: "player \<Rightarrow> json" where
  "dumps_player p =
     JObj ([(''x'', JNum (x p)), (''y'', JNum (y p)),
            (''color'', (case color p of (r, g, b) \<Rightarrow>
               JArr [JNum (real_of_int r), JNum (real_of_int g), JNum (real_of_int b)])),
            (''score'', JNum (real_of_int (score p)))]
           @ (case input p of None \<Rightarrow> [] | Some v \<Rightarrow> [(''input'', v)]))"

definition dumps_coin :: "coin \<Rightarrow> json" where
  "dumps_coin c =
     JObj [(''id'', JNum (real (coin_id c))), (''x'', JNum (coin_x c)), (''y'', JNum (coin_y c))]"

text \<open>
  The serialized snapshot handed to \<^verbatim>\<open>delayed_broadcast\<close>; \<open>None\<close> when no client is
  connected and nothing is sent.
\<close>

definition broadcast_state :: "server \<Rightarrow> real \<Rightarrow> json option" where
  "broadcast_state s now =
     (if clients s = [] then None
      else Some (JObj
        [(''t'', JNum now),
         (''players'', JObj (map (\<lambda>(pid, p). (str_nat pid, dumps_player p)) (players s))),
         (''coins'', JArr (map dumps_coin (coins s))),
         (''status'', JStr (if length (players s) \<ge> 2 then ''PLAYING''
                            else ''WAITING_FOR_PLAYERS''))]))"

subsection \<open>\<^verbatim>\<open>handle_client_message\<close> (lines 110-127), after its delay\<close>

text \<open>
  \<open>data\<close> is the decoded message, \<open>None\<close> when \<^verbatim>\<open>json.loads\<close> raises. Every exception
  inside the \<^verbatim>\<open>try\<close> block is caught and leaves the state as it is.
\<close>

definition handle_client_message :: "server \<Rightarrow> websocket \<Rightarrow> json option \<Rightarrow> server" where
  "handle_client_message s websocket data_opt =
     (case data_opt of
        None \<Rightarrow> s
      | Some data \<Rightarrow>
          (case map_of (clients s) websocket of
             None \<Rightarrow> s
           | Some pid \<Rightarrow>
               if pid = 0 then s
               else (case jget data ''type'' of
                       None \<Rightarrow> s
                     | Some ty \<Rightarrow>
                         if ty = JStr ''input'' then
                           (case jget data ''direction'' of
                              None \<Rightarrow> s
                            | Some direction \<Rightarrow>
                                (case map_of (players s) pid of
                                   None \<Rightarrow> s
                                 | Some p \<Rightarrow>
                                     s\<lparr>players :=
                                         AList.update pid (p\<lparr>input := Some direction\<rparr>) (players s)\<rparr>))
                         else s)))"

subsection \<open>\<^verbatim>\<open>register\<close> and \<^verbatim>\<open>unregister\<close> (lines 129-154)\<close>

text \<open>
  The five \<^verbatim>\<open>random.randint\<close> results are the arguments \<open>pos\<close> and \<open>col\<close>. The second
  component of the result is the handshake message sent to the new session.
\<close>

definition register :: "server \<Rightarrow> websocket \<Rightarrow> int \<times> int \<Rightarrow> int \<times> int \<times> int \<Rightarrow> server \<times> json" where
  "register s websocket pos col =
     (let pid = next_player_id s;
          s = s\<lparr>next_player_id := next_player_id s + 1\<rparr>;
          s = s\<lparr>clients := AList.update websocket pid (clients s)\<rparr>;
          s = s\<lparr>players := AList.update pid
                 \<lparr>x = real_of_int (fst pos), y = real_of_int (snd pos), color = col,
                  score = 0, input = Some JNull\<rparr> (players s)\<rparr>
      in (s, JObj [(''type'', JStr ''init''), (''id'', JNum (real pid))]))"

definition unregister :: "server \<Rightarrow> websocket \<Rightarrow> server" where
  "unregister s websocket =
     (case map_of (clients s) websocket of
        None \<Rightarrow> s
      | Some pid \<Rightarrow>
          (let s = s\<lparr>clients := AList.delete websocket (clients s)\<rparr>
           in if pid \<noteq> 0 then s\<lparr>players := AList.delete pid (players s)\<rparr> else s))"

subsection \<open>The server's life: \<^verbatim>\<open>handler\<close> and \<^verbatim>\<open>game_loop\<close> (lines 158-182)\<close>

text \<open>
  The event loop runs one of four operations at a time on the one \<^verbatim>\<open>GameServer\<close>:
  a session registers, a session unregisters, a delayed message is handled, or the game
  loop calls \<^verbatim>\<open>update\<close>. (\<^verbatim>\<open>broadcast_state\<close> changes nothing.)
\<close>

inductive step :: "server \<Rightarrow> server \<Rightarrow> bool" where
  step_register: "step s (fst (register s websocket pos col))"
| step_unregister: "step s (unregister s websocket)"
| step_message: "step s (handle_client_message s websocket data_opt)"
| step_update: "update s dt now rnd = Inr s' \<Longrightarrow> step s s'"

inductive reachable :: "server \<Rightarrow> bool" where
  reachable_init: "reachable (init now now')"
| reachable_step: "reachable s \<Longrightarrow> step s s' \<Longrightarrow> reachable s'"

text \<open>Successive calls of \<^verbatim>\<open>update\<close> by the game loop, one triple \<open>(dt, now, rnd)\<close> each.\<close>

fun game_loop :: "server \<Rightarrow> (real \<times> real \<times> (int \<times> int)) list \<Rightarrow> error + server" where
  "game_loop s [] = Inr s"
| "game_loop s ((dt, now, rnd) # ticks) =
     (case update s dt now rnd of
        Inl e \<Rightarrow> Inl e
      | Inr s' \<Rightarrow> game_loop s' ticks)"

subsection \<open>The client's snapshot buffer (\<^verbatim>\<open>client.py\<close>)\<close>

text \<open>
  A buffer entry is a decoded state message with the key \<^verbatim>\<open>recv_time\<close> that
  \<^verbatim>\<open>receive_handler\<close> adds (lines 161-164). Its \<^verbatim>\<open>players\<close> object maps the identity,
  a string, to a player dictionary.
\<close>

record entry =
  snap_t :: real
  snap_players :: "string \<rightharpoonup> player"
  snap_coins :: "coin list"
  snap_status :: string
  recv_time :: real

definition receive_state :: "entry list \<Rightarrow> entry \<Rightarrow> real \<Rightarrow> entry list" where
  "receive_state state_buffer data now = state_buffer @ [data\<lparr>recv_time := now\<rparr>]"

text \<open>Lines 31-32.\<close>

definition linear_interpolate :: "real \<Rightarrow> real \<Rightarrow> real \<Rightarrow> real" where
  "linear_interpolate start finish alpha = start + (finish - start) * alpha"

text \<open>Lines 43-44: the loop that pops the front of the buffer.\<close>

function trim_buffer :: "real \<Rightarrow> entry list \<Rightarrow> entry list" where
  "trim_buffer render_time state_buffer =
     (if length state_buffer > 2 \<and> recv_time (state_buffer ! 1) < render_time
      then trim_buffer render_time (tl state_buffer)
      else state_buffer)"
  by pat_completeness auto
termination
  by (relation "measure (\<lambda>(render_time, state_buffer). length state_buffer)") auto

declare trim_buffer.simps [simp del]

text \<open>Lines 54-58: the blend factor.\<close>

definition blend_factor :: "real \<Rightarrow> entry \<Rightarrow> entry \<Rightarrow> real" where
  "blend_factor render_time prev_state next_state =
     (let time_diff = recv_time next_state - recv_time prev_state;
          alpha = (if time_diff \<le> 0 then 1
                   else (render_time - recv_time prev_state) / time_diff)
      in max 0 (min 1 alpha))"

text \<open>Lines 60-78: the dictionary \<^verbatim>\<open>interpolated_players\<close>.\<close>

definition interpolated_players ::
  "real \<Rightarrow> (string \<rightharpoonup> player) \<Rightarrow> (string \<rightharpoonup> player) \<Rightarrow> (string \<rightharpoonup> player)" where
  "interpolated_players alpha prev_players next_players =
     (\<lambda>pid. case next_players pid of
        None \<Rightarrow> None
      | Some p_next \<Rightarrow>
          (case prev_players pid of
             Some p_prev \<Rightarrow>
               Some \<lparr>x = linear_interpolate (x p_prev) (x p_next) alpha,
                     y = linear_interpolate (y p_prev) (y p_next) alpha,
                     color = color p_next,
                     score = score p_next,
                     input = None\<rparr>
           | None \<Rightarrow> Some p_next))"

text \<open>
  Lines 34-80. \<open>current_server_time\<close> is \<^verbatim>\<open>time.time()\<close>. The result is the returned
  triple and the buffer as the call leaves it.
\<close>

definition get_render_state ::
  "real \<Rightarrow> entry list \<Rightarrow> ((string \<rightharpoonup> player) \<times> coin list \<times> string) \<times> entry list" where
  "get_render_state current_server_time state_buffer =
     (let render_time = current_server_time - INTERPOLATION_OFFSET;
          state_buffer = trim_buffer render_time state_buffer
      in if length state_buffer < 2 then
           (if state_buffer \<noteq> [] then
              ((snap_players (last state_buffer), snap_coins (last state_buffer),
                snap_status (last state_buffer)), state_buffer)
            else ((Map.empty, [], ''CONNECTING''), state_buffer))
         else
           (let prev_state = state_buffer ! 0;
                next_state = state_buffer ! 1;
                alpha = blend_factor render_time prev_state next_state
            in ((interpolated_players alpha (snap_players prev_state) (snap_players next_state),
                 snap_coins next_state, snap_status next_state), state_buffer)))"

subsection \<open>Auxiliary notions\<close>

text \<open>The position and score a player has after its turn in the loop of \<^verbatim>\<open>update\<close>.\<close>

fun tick_players ::
  "real \<Rightarrow> (nat \<times> player) list \<Rightarrow> coin list \<Rightarrow> (nat \<times> player) list \<times> coin list" where
  "tick_players dt [] cs = ([], cs)"
| "tick_players dt ((pid, p) # rest) cs =
     (let q = wall_collisions (move dt p);
          r = tick_players dt rest (filter (\<lambda>c. \<not> collects q c) cs)
      in ((pid, q\<lparr>score := score q + int (length (filter (collects q) cs))\<rparr>) # fst r, snd r))"

text \<open>What holds of every state the server reaches.\<close>

definition server_inv :: "server \<Rightarrow> bool" where
  "server_inv s \<longleftrightarrow>
     distinct (map fst (players s)) \<and>
     list_all (\<lambda>(pid, p). input p \<noteq> None) (players s) \<and>
     distinct (map coin_id (coins s)) \<and>
     list_all (\<lambda>c. coin_id c < coin_counter s) (coins s)"

text \<open>Coins only leave the list, except for the fresh coin of a spawn.\<close>

definition coins_later :: "server \<Rightarrow> server \<Rightarrow> bool" where
  "coins_later s s' \<longleftrightarrow>
     coin_counter s \<le> coin_counter s' \<and>
     (\<forall>c \<in> set (coins s'). c \<in> set (coins s) \<or> coin_counter s \<le> coin_id c)"

subsection \<open>Example states\<close>

text \<open>One player alone, holding the direction RIGHT.\<close>

definition lobby_state :: server where
  "lobby_state =
     handle_client_message (fst (register (init 0 0) 1 (100, 100) (50, 50, 50))) 1
       (Some (JObj [(''type'', JStr ''input''), (''direction'', JStr ''RIGHT'')]))"

text \<open>Two players ten pixels apart, none holding a direction.\<close>

definition two_players :: server where
  "two_players =
     fst (register (fst (register (init 0 0) 1 (100, 100) (50, 50, 50))) 2 (110, 100) (60, 60, 60))"

text \<open>The two players, the first holding the direction RIGHT.\<close>

definition right_pressed :: server where
  "right_pressed =
     handle_client_message two_players 1
       (Some (JObj [(''type'', JStr ''input''), (''direction'', JStr ''RIGHT'')]))"

text \<open>Three buffer entries received a tenth of a second apart.\<close>

definition first_snapshot :: entry where
  "first_snapshot =
     \<lparr>snap_t = 0,
      snap_players = [''3'' \<mapsto> \<lparr>x = 100, y = 100, color = (50, 50, 50), score = 0,
                                input = Some JNull\<rparr>],
      snap_coins = [], snap_status = ''PLAYING'', recv_time = 0\<rparr>"

definition second_snapshot :: entry where
  "second_snapshot =
     \<lparr>snap_t = 1 / 10,
      snap_players = [''3'' \<mapsto> \<lparr>x = 200, y = 100, color = (50, 50, 50), score = 2,
                                input = Some JNull\<rparr>],
      snap_coins = [], snap_status = ''PLAYING'', recv_time = 1 / 10\<rparr>"

definition third_snapshot :: entry where
  "third_snapshot =
     \<lparr>snap_t = 2 / 10,
      snap_players = [''3'' \<mapsto> \<lparr>x = 200, y = 160, color = (50, 50, 50), score = 2,
                                input = Some JNull\<rparr>],
      snap_coins = [], snap_status = ''PLAYING'', recv_time = 2 / 10\<rparr>"

section \<open>Properties\<close>

lemmas config_defs =
  ARTIFICIAL_LATENCY_def MAP_WIDTH_def MAP_HEIGHT_def PLAYER_SPEED_def PLAYER_SIZE_def
  COIN_SIZE_def COIN_SPAWN_RATE_def INTERPOLATION_OFFSET_def

declare str_nat.simps [simp del]

subsection \<open>The loops in closed form\<close>

lemma sqrt_less_30: "sqrt a < 30 \<longleftrightarrow> a < 900"
proof -
  have "sqrt 900 = (30::real)" using real_sqrt_abs2[of 30] by simp
  then show ?thesis by (metis real_sqrt_less_iff)
qed

lemma collects_iff: "collects p c \<longleftrightarrow> (x p - coin_x c)\<^sup>2 + (y p - coin_y c)\<^sup>2 < 900"
  by (simp add: collects_def config_defs sqrt_less_30 power2_eq_square Let_def)

lemma collects_score [simp]: "collects (p\<lparr>score := n\<rparr>) = collects p"
  by (simp add: collects_def fun_eq_iff)

lemma coin_loop_eq:
  "coin_loop p acc cs =
     (p\<lparr>score := score p + int (length (filter (collects p) cs))\<rparr>,
      acc @ filter (\<lambda>c. \<not> collects p c) cs)"
  by (induction cs arbitrary: p acc) (simp_all add: algebra_simps)

lemma check_collisions_eq:
  "map_of (players s) pid = Some p0 \<Longrightarrow>
   check_collisions s pid =
     Inr (s\<lparr>players := AList.update pid
              ((wall_collisions p0)\<lparr>score := score p0 +
                 int (length (filter (collects (wall_collisions p0)) (coins s)))\<rparr>) (players s),
            coins := filter (\<lambda>c. \<not> collects (wall_collisions p0) c) (coins s)\<rparr>)"
  by (simp add: check_collisions_def coin_loop_eq wall_collisions_def Let_def)

lemma update_mid:
  "k \<notin> fst ` set pre \<Longrightarrow> AList.update k v (pre @ (k, w) # post) = pre @ (k, v) # post"
  by (induction pre) auto

lemma map_of_mid:
  "k \<notin> fst ` set pre \<Longrightarrow> map_of (pre @ (k, w) # post) k = Some w"
  by (induction pre) auto

lemma players_loop_eq:
  "distinct (map fst (pre @ todo)) \<Longrightarrow> players s = pre @ todo \<Longrightarrow>
   players_loop dt todo s =
     Inr (s\<lparr>players := pre @ fst (tick_players dt todo (coins s)),
            coins := snd (tick_players dt todo (coins s))\<rparr>)"
proof (induction todo arbitrary: pre s)
  case Nil
  then show ?case by simp
next
  case (Cons a todo)
  obtain pid p where a: "a = (pid, p)" by (cases a)
  let ?q = "wall_collisions (move dt p)"
  let ?q' = "?q\<lparr>score := score ?q + int (length (filter (collects ?q) (coins s)))\<rparr>"
  let ?s1 = "s\<lparr>players := AList.update pid (move dt p) (players s)\<rparr>"
  from Cons.prems a have notin: "pid \<notin> fst ` set pre" by auto
  have p1: "players ?s1 = pre @ (pid, move dt p) # todo"
    using Cons.prems(2) a notin by (simp add: update_mid)
  have look: "map_of (players ?s1) pid = Some (move dt p)"
    using p1 map_of_mid[OF notin, of "move dt p" todo] by simp
  have sc: "score (move dt p) = score ?q" by (simp add: wall_collisions_def Let_def)
  let ?s2 = "s\<lparr>players := (pre @ [(pid, ?q')]) @ todo,
                coins := filter (\<lambda>c. \<not> collects ?q c) (coins s)\<rparr>"
  have cc: "check_collisions ?s1 pid = Inr ?s2"
    using check_collisions_eq[OF look] p1 notin by (simp add: update_mid sc)
  have d2: "distinct (map fst ((pre @ [(pid, ?q')]) @ todo))"
    using Cons.prems(1) a by auto
  have "players_loop dt todo ?s2 =
     Inr (?s2\<lparr>players := (pre @ [(pid, ?q')]) @ fst (tick_players dt todo (coins ?s2)),
            coins := snd (tick_players dt todo (coins ?s2))\<rparr>)"
    by (rule Cons.IH[OF d2]) simp
  then show ?case using cc a by (simp add: Let_def)
qed


lemma tick_coins:
  "snd (tick_players dt ps cs) =
     filter (\<lambda>c. \<forall>e \<in> set ps. \<not> collects (wall_collisions (move dt (snd e))) c) cs"
proof (induction ps arbitrary: cs)
  case Nil
  then show ?case by simp
next
  case (Cons a ps)
  obtain pid p where a: "a = (pid, p)" by (cases a)
  show ?case unfolding a by (simp add: Let_def Cons.IH conj_commute)
qed

lemma tick_keys: "map fst (fst (tick_players dt ps cs)) = map fst ps"
proof (induction ps arbitrary: cs)
  case Nil
  then show ?case by simp
next
  case (Cons a ps)
  obtain pid p where a: "a = (pid, p)" by (cases a)
  show ?case unfolding a by (simp add: Let_def Cons.IH)
qed

lemma tick_length: "length (fst (tick_players dt ps cs)) = length ps"
  using tick_keys[of dt ps cs] by (metis length_map)

lemma score_wall_move [simp]: "score (wall_collisions (move dt p)) = score p"
  by (simp add: wall_collisions_def move_def Let_def)

lemma input_wall_move [simp]: "input (wall_collisions (move dt p)) = input p"
  by (simp add: wall_collisions_def move_def Let_def)

lemma color_wall_move [simp]: "color (wall_collisions (move dt p)) = color p"
  by (simp add: wall_collisions_def move_def Let_def)

lemma all_less_Suc_split: "(\<forall>j<Suc k. P j) \<longleftrightarrow> P 0 \<and> (\<forall>j<k. P (Suc j))"
  by (metis less_Suc_eq_0_disj Suc_less_eq)

lemma tick_nth:
  "k < length ps \<Longrightarrow>
   fst (tick_players dt ps cs) ! k =
     (fst (ps ! k),
      (wall_collisions (move dt (snd (ps ! k))))\<lparr>score := score (snd (ps ! k)) +
         int (length (filter (\<lambda>c. collects (wall_collisions (move dt (snd (ps ! k)))) c \<and>
                (\<forall>j<k. \<not> collects (wall_collisions (move dt (snd (ps ! j)))) c)) cs))\<rparr>)"
proof (induction ps arbitrary: cs k)
  case Nil
  then show ?case by simp
next
  case (Cons a ps)
  obtain pid p where a: "a = (pid, p)" by (cases a)
  show ?case
  proof (cases k)
    case 0
    then show ?thesis unfolding a by (simp add: Let_def)
  next
    case (Suc k')
    with Cons.prems have k': "k' < length ps" by simp
    show ?thesis unfolding a Suc
      by (simp add: Let_def Cons.IH[OF k'] all_less_Suc_split conj_ac)
  qed
qed

lemma tick_total:
  "(\<Sum>e\<leftarrow>fst (tick_players dt ps cs). score (snd e)) + int (length (snd (tick_players dt ps cs))) =
   (\<Sum>e\<leftarrow>ps. score (snd e)) + int (length cs)"
proof (induction ps arbitrary: cs)
  case Nil
  then show ?case by simp
next
  case (Cons a ps)
  obtain pid p where a: "a = (pid, p)" by (cases a)
  let ?q = "wall_collisions (move dt p)"
  have split: "int (length (filter (collects ?q) cs)) + int (length (filter (\<lambda>c. \<not> collects ?q c) cs))
     = int (length cs)"
    using sum_length_filter_compl[of "collects ?q" cs] by linarith
  show ?case unfolding a using Cons.IH[of "filter (\<lambda>c. \<not> collects ?q c) cs"] split
    by (simp add: Let_def)
qed

lemma players_spawn_phase [simp]: "players (spawn_phase s now rnd) = players s"
  by (simp add: spawn_phase_def spawn_coin_def Let_def)

lemma update_eq:
  assumes "distinct (map fst (players s))" and "2 \<le> length (players s)"
  shows "update s dt now rnd =
     Inr ((spawn_phase s now rnd)
            \<lparr>players := fst (tick_players dt (players s) (coins (spawn_phase s now rnd))),
             coins := snd (tick_players dt (players s) (coins (spawn_phase s now rnd)))\<rparr>)"
proof -
  let ?s1 = "spawn_phase s now rnd"
  have "players_loop dt (players ?s1) ?s1 =
     Inr (?s1\<lparr>players := [] @ fst (tick_players dt (players ?s1) (coins ?s1)),
            coins := snd (tick_players dt (players ?s1) (coins ?s1))\<rparr>)"
    by (rule players_loop_eq) (use assms in simp_all)
  then show ?thesis using assms(2) by (simp add: update_def Let_def)
qed

lemma update_lobby: "length (players s) < 2 \<Longrightarrow> update s dt now rnd = Inr s"
  by (simp add: update_def)

lemma map_of_nth: "distinct (map fst ps) \<Longrightarrow> k < length ps \<Longrightarrow> map_of ps (fst (ps ! k)) = Some (snd (ps ! k))"
  by (metis map_of_eq_Some_iff nth_mem prod.collapse)

subsection \<open>Invariants of the reachable states\<close>

lemma list_all_update:
  "list_all P al \<Longrightarrow> P (k, v) \<Longrightarrow> list_all P (AList.update k v al)"
  by (induction al) auto

lemma list_all_delete: "list_all P al \<Longrightarrow> list_all P (AList.delete k al)"
  by (induction al) auto

lemma tick_inputs:
  "list_all (\<lambda>(pid, p). input p \<noteq> None) ps \<Longrightarrow>
   list_all (\<lambda>(pid, p). input p \<noteq> None) (fst (tick_players dt ps cs))"
proof (induction ps arbitrary: cs)
  case Nil
  then show ?case by simp
next
  case (Cons a ps)
  obtain pid p where a: "a = (pid, p)" by (cases a)
  show ?case using Cons.prems unfolding a by (simp add: Let_def Cons.IH del: not_None_eq)
qed

lemma server_inv_init: "server_inv (init now now')"
  by (simp add: server_inv_def init_def)

lemma server_inv_register: "server_inv s \<Longrightarrow> server_inv (fst (register s websocket pos col))"
  by (simp add: server_inv_def register_def Let_def AList.distinct_update list_all_update)

lemma server_inv_unregister: "server_inv s \<Longrightarrow> server_inv (unregister s websocket)"
  by (auto simp: server_inv_def unregister_def Let_def AList.distinct_delete list_all_delete
      split: option.splits)

lemma server_inv_message: "server_inv s \<Longrightarrow> server_inv (handle_client_message s websocket data_opt)"
  by (auto simp: server_inv_def handle_client_message_def AList.distinct_update list_all_update
      split: option.splits)

lemma server_inv_spawn_phase: "server_inv s \<Longrightarrow> server_inv (spawn_phase s now rnd)"
  by (auto simp: server_inv_def spawn_phase_def spawn_coin_def Let_def list_all_iff)

lemma server_inv_update:
  assumes "server_inv s" and "update s dt now rnd = Inr s'"
  shows "server_inv s'"
proof (cases "length (players s) < 2")
  case True
  with assms show ?thesis by (simp add: update_lobby)
next
  case False
  let ?s1 = "spawn_phase s now rnd"
  let ?t = "tick_players dt (players s) (coins ?s1)"
  have d: "distinct (map fst (players s))" using assms(1) by (simp add: server_inv_def)
  have s': "s' = ?s1\<lparr>players := fst ?t, coins := snd ?t\<rparr>"
    using update_eq[OF d, of dt now rnd] False assms(2) by simp
  have inv1: "server_inv ?s1" using assms(1) by (rule server_inv_spawn_phase)
  have 1: "distinct (map fst (fst ?t))" using d by (simp add: tick_keys)
  have 2: "list_all (\<lambda>(pid, p). input p \<noteq> None) (fst ?t)"
    using assms(1) by (simp add: server_inv_def tick_inputs del: not_None_eq)
  have 3: "distinct (map coin_id (snd ?t))"
    using inv1 by (simp add: server_inv_def tick_coins distinct_map_filter)
  have 4: "list_all (\<lambda>c. coin_id c < coin_counter ?s1) (snd ?t)"
    using inv1 by (simp add: server_inv_def tick_coins list_all_iff)
  show ?thesis unfolding s' using 1 2 3 4 by (simp add: server_inv_def)
qed

lemma server_inv_step: "step s s' \<Longrightarrow> server_inv s \<Longrightarrow> server_inv s'"
  by (induction rule: step.induct)
     (simp_all add: server_inv_register server_inv_unregister server_inv_message server_inv_update)

lemma reachable_inv: "reachable s \<Longrightarrow> server_inv s"
  by (induction rule: reachable.induct) (simp_all add: server_inv_init server_inv_step)

lemma server_inv_steps: "step\<^sup>*\<^sup>* s s' \<Longrightarrow> server_inv s \<Longrightarrow> server_inv s'"
  by (induction rule: rtranclp_induct) (simp_all add: server_inv_step)

lemma coins_later_spawn_phase: "coins_later s (spawn_phase s now rnd)"
  by (auto simp: coins_later_def spawn_phase_def spawn_coin_def Let_def)

lemma coins_later_update:
  assumes "server_inv s" and "update s dt now rnd = Inr s'"
  shows "coins_later s s'"
proof (cases "length (players s) < 2")
  case True
  with assms show ?thesis by (simp add: update_lobby coins_later_def)
next
  case False
  let ?s1 = "spawn_phase s now rnd"
  let ?t = "tick_players dt (players s) (coins ?s1)"
  have d: "distinct (map fst (players s))" using assms(1) by (simp add: server_inv_def)
  have s': "s' = ?s1\<lparr>players := fst ?t, coins := snd ?t\<rparr>"
    using update_eq[OF d, of dt now rnd] False assms(2) by simp
  show ?thesis using coins_later_spawn_phase[of s now rnd] unfolding s'
    by (auto simp: coins_later_def tick_coins)
qed

lemma coins_later_step: "step s s' \<Longrightarrow> server_inv s \<Longrightarrow> coins_later s s'"
proof (induction rule: step.induct)
  case (step_register s websocket pos col)
  show ?case by (simp add: coins_later_def register_def Let_def)
next
  case (step_unregister s websocket)
  show ?case by (simp add: coins_later_def unregister_def Let_def split: option.splits)
next
  case (step_message s websocket data_opt)
  show ?case by (simp add: coins_later_def handle_client_message_def split: option.splits)
next
  case (step_update s dt now rnd s')
  then show ?case by (simp add: coins_later_update)
qed

lemma coins_later_trans: "coins_later a b \<Longrightarrow> coins_later b c \<Longrightarrow> coins_later a c"
  unfolding coins_later_def by (meson order_trans)

lemma coins_later_steps: "step\<^sup>*\<^sup>* s s' \<Longrightarrow> server_inv s \<Longrightarrow> coins_later s s'"
proof (induction rule: rtranclp_induct)
  case base
  show ?case by (simp add: coins_later_def)
next
  case (step b c)
  then show ?case
    using coins_later_trans coins_later_step server_inv_steps by blast
qed

subsection \<open>Movement, collection and the tie-break\<close>

lemma tick_lookup:
  assumes "distinct (map fst ps)" and "k < length ps"
  shows "map_of (fst (tick_players dt ps cs)) (fst (ps ! k)) = Some (snd (fst (tick_players dt ps cs) ! k))"
proof -
  let ?t = "fst (tick_players dt ps cs)"
  have d: "distinct (map fst ?t)" using assms(1) by (simp add: tick_keys)
  have k: "k < length ?t" using assms(2) by (simp add: tick_length)
  have "fst (?t ! k) = fst (ps ! k)" using assms(2) by (simp add: tick_nth)
  with map_of_nth[OF d k] show ?thesis by simp
qed

lemma x_wall_move:
  "x (wall_collisions (move dt p)) =
     max PLAYER_SIZE (min (MAP_WIDTH - PLAYER_SIZE)
       (x p + (if input p = Some (JStr ''LEFT'') then - (PLAYER_SPEED * dt)
               else if input p = Some (JStr ''RIGHT'') then PLAYER_SPEED * dt
               else 0)))"
  by (cases "input p") (simp_all add: wall_collisions_def move_def Let_def)

lemma y_wall_move:
  "y (wall_collisions (move dt p)) =
     max PLAYER_SIZE (min (MAP_HEIGHT - PLAYER_SIZE)
       (y p + (if input p = Some (JStr ''UP'') then - (PLAYER_SPEED * dt)
               else if input p = Some (JStr ''DOWN'') then PLAYER_SPEED * dt
               else 0)))"
  by (cases "input p") (simp_all add: wall_collisions_def move_def Let_def)

lemma displacement_cases:
  "(case (if input p = Some (JStr ''UP'') then (0, - (PLAYER_SPEED * dt))
          else if input p = Some (JStr ''DOWN'') then (0, PLAYER_SPEED * dt)
          else if input p = Some (JStr ''LEFT'') then (- (PLAYER_SPEED * dt), 0)
          else if input p = Some (JStr ''RIGHT'') then (PLAYER_SPEED * dt, 0)
          else (0, 0)) of
      (dx, dy) \<Rightarrow>
        x (wall_collisions (move dt p)) =
          max PLAYER_SIZE (min (MAP_WIDTH - PLAYER_SIZE) (x p + dx)) \<and>
        y (wall_collisions (move dt p)) =
          max PLAYER_SIZE (min (MAP_HEIGHT - PLAYER_SIZE) (y p + dy)))"
  by (simp add: x_wall_move y_wall_move)

text \<open>
  C3. In a tick with at least two registered players, every player ends at its position
  before the tick, displaced by \<open>PLAYER_SPEED * dt\<close> along one axis in the direction of
  its stored input (UP and LEFT towards the smaller coordinate; no displacement when the
  input is none of the four directions), and then clamped on both axes into
  \<open>[PLAYER_SIZE, MAP_WIDTH - PLAYER_SIZE]\<close> and \<open>[PLAYER_SIZE, MAP_HEIGHT - PLAYER_SIZE]\<close>.
\<close>

theorem update_moves_players:
  assumes "reachable s" and "2 \<le> length (players s)" and "map_of (players s) pid = Some p"
  shows "\<exists>s' p'. update s dt now rnd = Inr s' \<and> map_of (players s') pid = Some p' \<and>
     (case (if input p = Some (JStr ''UP'') then (0, - (PLAYER_SPEED * dt))
            else if input p = Some (JStr ''DOWN'') then (0, PLAYER_SPEED * dt)
            else if input p = Some (JStr ''LEFT'') then (- (PLAYER_SPEED * dt), 0)
            else if input p = Some (JStr ''RIGHT'') then (PLAYER_SPEED * dt, 0)
            else (0, 0)) of
        (dx, dy) \<Rightarrow>
          x p' = max PLAYER_SIZE (min (MAP_WIDTH - PLAYER_SIZE) (x p + dx)) \<and>
          y p' = max PLAYER_SIZE (min (MAP_HEIGHT - PLAYER_SIZE) (y p + dy))) \<and>
     PLAYER_SIZE \<le> x p' \<and> x p' \<le> MAP_WIDTH - PLAYER_SIZE \<and>
     PLAYER_SIZE \<le> y p' \<and> y p' \<le> MAP_HEIGHT - PLAYER_SIZE"
proof -
  let ?s1 = "spawn_phase s now rnd"
  let ?t = "tick_players dt (players s) (coins ?s1)"
  let ?s' = "?s1\<lparr>players := fst ?t, coins := snd ?t\<rparr>"
  have d: "distinct (map fst (players s))"
    using reachable_inv[OF assms(1)] by (simp add: server_inv_def)
  have upd: "update s dt now rnd = Inr ?s'" by (rule update_eq[OF d assms(2)])
  from assms(3) have "(pid, p) \<in> set (players s)" by (rule map_of_SomeD)
  then obtain k where k: "k < length (players s)" and pk: "players s ! k = (pid, p)"
    by (auto simp: in_set_conv_nth)
  let ?p' = "snd (fst ?t ! k)"
  have look: "map_of (players ?s') pid = Some ?p'"
    using tick_lookup[OF d k, of dt "coins ?s1"] pk by simp
  have xp: "x ?p' = x (wall_collisions (move dt p))"
    and yp: "y ?p' = y (wall_collisions (move dt p))"
    using k pk by (simp_all add: tick_nth)
  have bx: "PLAYER_SIZE \<le> x ?p' \<and> x ?p' \<le> MAP_WIDTH - PLAYER_SIZE"
    unfolding xp x_wall_move by (simp add: config_defs)
  have by': "PLAYER_SIZE \<le> y ?p' \<and> y ?p' \<le> MAP_HEIGHT - PLAYER_SIZE"
    unfolding yp y_wall_move by (simp add: config_defs)
  have mv: "(case (if input p = Some (JStr ''UP'') then (0, - (PLAYER_SPEED * dt))
            else if input p = Some (JStr ''DOWN'') then (0, PLAYER_SPEED * dt)
            else if input p = Some (JStr ''LEFT'') then (- (PLAYER_SPEED * dt), 0)
            else if input p = Some (JStr ''RIGHT'') then (PLAYER_SPEED * dt, 0)
            else (0, 0)) of
        (dx, dy) \<Rightarrow>
          x ?p' = max PLAYER_SIZE (min (MAP_WIDTH - PLAYER_SIZE) (x p + dx)) \<and>
          y ?p' = max PLAYER_SIZE (min (MAP_HEIGHT - PLAYER_SIZE) (y p + dy)))"
    unfolding xp yp by (rule displacement_cases)
  show ?thesis
    by (intro exI[of _ ?s'] exI[of _ ?p'] conjI upd look mv)
       (simp_all only: bx by')
qed

lemma collects_sqrt:
  "collects p c \<longleftrightarrow>
     sqrt ((x p - coin_x c)\<^sup>2 + (y p - coin_y c)\<^sup>2) < PLAYER_SIZE + COIN_SIZE"
  by (simp add: collects_def Let_def power2_eq_square)

lemma tick_collects_set:
  "(\<exists>e' \<in> set (fst (tick_players dt ps cs)). collects (snd e') c) \<longleftrightarrow>
   (\<exists>e \<in> set ps. collects (wall_collisions (move dt (snd e))) c)"
proof (induction ps arbitrary: cs)
  case Nil
  then show ?case by simp
next
  case (Cons a ps)
  obtain pid p where a: "a = (pid, p)" by (cases a)
  show ?case unfolding a by (simp add: Let_def Cons.IH)
qed

lemma tick_nth_collects:
  "k < length ps \<Longrightarrow>
   collects (snd (fst (tick_players dt ps cs) ! k)) = collects (wall_collisions (move dt (snd (ps ! k))))"
  by (simp add: tick_nth)

lemma tick_nth_score:
  assumes "k < length ps"
  shows "score (snd (fst (tick_players dt ps cs) ! k)) =
     score (snd (ps ! k)) +
     int (length (filter (\<lambda>c. collects (snd (fst (tick_players dt ps cs) ! k)) c \<and>
            (\<forall>j<k. \<not> collects (snd (fst (tick_players dt ps cs) ! j)) c)) cs))"
proof -
  have "(\<lambda>c. collects (snd (fst (tick_players dt ps cs) ! k)) c \<and>
            (\<forall>j<k. \<not> collects (snd (fst (tick_players dt ps cs) ! j)) c))
      = (\<lambda>c. collects (wall_collisions (move dt (snd (ps ! k)))) c \<and>
            (\<forall>j<k. \<not> collects (wall_collisions (move dt (snd (ps ! j)))) c))"
    using assms by (auto simp: fun_eq_iff tick_nth_collects)
  then show ?thesis using assms by (simp add: tick_nth)
qed

lemma removed_coin_gone:
  assumes inv1: "server_inv s1" and inv': "server_inv s'"
    and sub: "set (coins s') \<subseteq> set (coins s1)" and cnt: "coin_counter s' = coin_counter s1"
    and later: "step\<^sup>*\<^sup>* s' s''"
    and c1: "c \<in> set (coins s1)" and c': "c \<notin> set (coins s')"
    and c'': "c'' \<in> set (coins s'')"
  shows "coin_id c'' \<noteq> coin_id c"
proof
  assume same: "coin_id c'' = coin_id c"
  have cl: "coins_later s' s''" using later inv' by (rule coins_later_steps)
  have small: "coin_id c < coin_counter s1" using inv1 c1 by (simp add: server_inv_def list_all_iff)
  from cl c'' have "c'' \<in> set (coins s') \<or> coin_counter s' \<le> coin_id c''"
    by (simp add: coins_later_def)
  then show False
  proof
    assume in': "c'' \<in> set (coins s')"
    then have "c'' \<in> set (coins s1)" using sub by blast
    moreover have "inj_on coin_id (set (coins s1))"
      using inv1 by (simp add: server_inv_def distinct_map)
    ultimately have "c'' = c" using c1 same by (auto dest: inj_onD)
    with in' c' show False by simp
  next
    assume "coin_counter s' \<le> coin_id c''"
    with small same cnt show False by simp
  qed
qed

text \<open>
  C4. In a tick with at least two registered players, a coin of the list (as it is after
  the spawn step) is gone after the tick exactly when its Euclidean distance to the
  position some player has after the tick is strictly less than
  \<open>PLAYER_SIZE + COIN_SIZE\<close>; no coin is added by the collision step; the scores grow in
  total by the number of coins removed, one point for each; no score decreases, and a
  player gains at most as many points as there were coins within its range; and whatever
  the server does afterwards, no coin with the identity of a removed coin is in the list
  again.
\<close>

theorem coin_collection:
  assumes "reachable s" and "2 \<le> length (players s)"
  shows "\<exists>s'. update s dt now rnd = Inr s' \<and>
     (\<forall>c \<in> set (coins (spawn_phase s now rnd)).
        c \<notin> set (coins s') \<longleftrightarrow>
        (\<exists>e \<in> set (players s').
           sqrt ((x (snd e) - coin_x c)\<^sup>2 + (y (snd e) - coin_y c)\<^sup>2) < PLAYER_SIZE + COIN_SIZE)) \<and>
     set (coins s') \<subseteq> set (coins (spawn_phase s now rnd)) \<and>
     (\<Sum>e\<leftarrow>players s'. score (snd e)) =
       (\<Sum>e\<leftarrow>players s. score (snd e)) +
       (int (length (coins (spawn_phase s now rnd))) - int (length (coins s'))) \<and>
     (\<forall>k < length (players s).
        score (snd (players s ! k)) \<le> score (snd (players s' ! k)) \<and>
        score (snd (players s' ! k)) \<le> score (snd (players s ! k)) +
          int (length (filter (collects (snd (players s' ! k))) (coins (spawn_phase s now rnd))))) \<and>
     (\<forall>s'' c. step\<^sup>*\<^sup>* s' s'' \<longrightarrow> c \<in> set (coins (spawn_phase s now rnd)) \<longrightarrow>
        c \<notin> set (coins s') \<longrightarrow> (\<forall>c'' \<in> set (coins s''). coin_id c'' \<noteq> coin_id c))"
proof -
  let ?s1 = "spawn_phase s now rnd"
  let ?t = "tick_players dt (players s) (coins ?s1)"
  let ?s' = "?s1\<lparr>players := fst ?t, coins := snd ?t\<rparr>"
  have inv: "server_inv s" using assms(1) by (rule reachable_inv)
  have d: "distinct (map fst (players s))" using inv by (simp add: server_inv_def)
  have upd: "update s dt now rnd = Inr ?s'" by (rule update_eq[OF d assms(2)])
  have inv1: "server_inv ?s1" using inv by (rule server_inv_spawn_phase)
  have inv': "server_inv ?s'" using inv upd by (rule server_inv_update)
  have a: "\<forall>c \<in> set (coins ?s1). c \<notin> set (coins ?s') \<longleftrightarrow>
        (\<exists>e \<in> set (players ?s').
           sqrt ((x (snd e) - coin_x c)\<^sup>2 + (y (snd e) - coin_y c)\<^sup>2) < PLAYER_SIZE + COIN_SIZE)"
    using tick_collects_set[of dt "players s" "coins ?s1"]
    by (simp add: tick_coins collects_sqrt[symmetric])
  have b: "set (coins ?s') \<subseteq> set (coins ?s1)" by (auto simp: tick_coins)
  have c: "(\<Sum>e\<leftarrow>players ?s'. score (snd e)) =
       (\<Sum>e\<leftarrow>players s. score (snd e)) + (int (length (coins ?s1)) - int (length (coins ?s')))"
    using tick_total[of dt "players s" "coins ?s1"] by simp
  have e: "\<forall>k < length (players s).
        score (snd (players s ! k)) \<le> score (snd (players ?s' ! k)) \<and>
        score (snd (players ?s' ! k)) \<le> score (snd (players s ! k)) +
          int (length (filter (collects (snd (players ?s' ! k))) (coins ?s1)))"
  proof (intro allI impI)
    fix k assume k: "k < length (players s)"
    let ?P = "collects (snd (fst ?t ! k))"
    let ?Q = "\<lambda>c. \<forall>j<k. \<not> collects (snd (fst ?t ! j)) c"
    have "length (filter (\<lambda>c. ?P c \<and> ?Q c) (coins ?s1)) \<le> length (filter ?P (coins ?s1))"
      using length_filter_le[of ?Q "filter ?P (coins ?s1)"] by (simp add: conj_commute)
    then show "score (snd (players s ! k)) \<le> score (snd (players ?s' ! k)) \<and>
        score (snd (players ?s' ! k)) \<le> score (snd (players s ! k)) +
          int (length (filter (collects (snd (players ?s' ! k))) (coins ?s1)))"
      using tick_nth_score[OF k, of dt "coins ?s1"] by simp
  qed
  have f: "\<forall>s'' c. step\<^sup>*\<^sup>* ?s' s'' \<longrightarrow> c \<in> set (coins ?s1) \<longrightarrow>
        c \<notin> set (coins ?s') \<longrightarrow> (\<forall>c'' \<in> set (coins s''). coin_id c'' \<noteq> coin_id c)"
    using removed_coin_gone[OF inv1 inv' b] by simp
  show ?thesis by (intro exI[of _ ?s'] conjI upd a b c e f)
qed

text \<open>
  C5. In a tick with at least two registered players, the players are processed in the
  order of the dictionary, and the score of the player at position \<open>k\<close> grows by the
  number of coins that are within its range and within the range of no player at an
  earlier position: a coin that several players could claim counts for the first of them
  only, and the scores grow in total by exactly the number of coins removed.
\<close>

theorem first_player_claims:
  assumes "reachable s" and "2 \<le> length (players s)"
  shows "\<exists>s'. update s dt now rnd = Inr s' \<and>
     map fst (players s') = map fst (players s) \<and>
     (\<forall>k < length (players s).
        score (snd (players s' ! k)) =
          score (snd (players s ! k)) +
          int (length (filter
            (\<lambda>c. collects (snd (players s' ! k)) c \<and>
                 (\<forall>j<k. \<not> collects (snd (players s' ! j)) c))
            (coins (spawn_phase s now rnd))))) \<and>
     (\<Sum>e\<leftarrow>players s'. score (snd e)) - (\<Sum>e\<leftarrow>players s. score (snd e)) =
       int (length (coins (spawn_phase s now rnd))) - int (length (coins s'))"
proof -
  let ?s1 = "spawn_phase s now rnd"
  let ?t = "tick_players dt (players s) (coins ?s1)"
  let ?s' = "?s1\<lparr>players := fst ?t, coins := snd ?t\<rparr>"
  have d: "distinct (map fst (players s))"
    using reachable_inv[OF assms(1)] by (simp add: server_inv_def)
  have upd: "update s dt now rnd = Inr ?s'" by (rule update_eq[OF d assms(2)])
  have keys: "map fst (players ?s') = map fst (players s)" by (simp add: tick_keys)
  have each: "\<forall>k < length (players s).
        score (snd (players ?s' ! k)) =
          score (snd (players s ! k)) +
          int (length (filter
            (\<lambda>c. collects (snd (players ?s' ! k)) c \<and>
                 (\<forall>j<k. \<not> collects (snd (players ?s' ! j)) c))
            (coins ?s1)))"
    using tick_nth_score[of _ "players s" dt "coins ?s1"] by simp
  have total: "(\<Sum>e\<leftarrow>players ?s'. score (snd e)) - (\<Sum>e\<leftarrow>players s. score (snd e)) =
       int (length (coins ?s1)) - int (length (coins ?s'))"
    using tick_total[of dt "players s" "coins ?s1"] by simp
  show ?thesis by (intro exI[of _ ?s'] conjI upd keys each total)
qed


lemma two_players_eq:
  "two_players =
     \<lparr>clients = [(1, 1), (2, 2)],
      players = [(1, \<lparr>x = 100, y = 100, color = (50, 50, 50), score = 0, input = Some JNull\<rparr>),
                 (2, \<lparr>x = 110, y = 100, color = (60, 60, 60), score = 0, input = Some JNull\<rparr>)],
      coins = [], coin_counter = 0, last_coin_spawn = 0, running = False,
      start_time = 0, next_player_id = 3\<rparr>"
  by (simp add: two_players_def register_def init_def Let_def)

lemma right_pressed_eq:
  "right_pressed =
     \<lparr>clients = [(1, 1), (2, 2)],
      players = [(1, \<lparr>x = 100, y = 100, color = (50, 50, 50), score = 0,
                       input = Some (JStr ''RIGHT'')\<rparr>),
                 (2, \<lparr>x = 110, y = 100, color = (60, 60, 60), score = 0, input = Some JNull\<rparr>)],
      coins = [], coin_counter = 0, last_coin_spawn = 0, running = False,
      start_time = 0, next_player_id = 3\<rparr>"
  by (simp add: right_pressed_def two_players_eq handle_client_message_def)

lemma reachable_two_players: "reachable two_players"
  unfolding two_players_def
  by (intro reachable_step[OF _ step_register] reachable_init)

lemma reachable_right_pressed: "reachable right_pressed"
  unfolding right_pressed_def
  by (rule reachable_step[OF reachable_two_players step_message])

lemmas run_defs =
  update_def spawn_phase_def spawn_coin_def check_collisions_def wall_collisions_def move_def
  collects_iff config_defs Let_def

lemma right_pressed_tick:
  "update right_pressed (1 / 10) 1 (0, 0) =
     Inr \<lparr>clients = [(1, 1), (2, 2)],
      players = [(1, \<lparr>x = 130, y = 100, color = (50, 50, 50), score = 0,
                       input = Some (JStr ''RIGHT'')\<rparr>),
                 (2, \<lparr>x = 110, y = 100, color = (60, 60, 60), score = 0, input = Some JNull\<rparr>)],
      coins = [], coin_counter = 0, last_coin_spawn = 0, running = False,
      start_time = 0, next_player_id = 3\<rparr>"
  by (simp add: right_pressed_eq run_defs)

lemma two_players_tick:
  "update two_players 0 4 (105, 100) =
     Inr \<lparr>clients = [(1, 1), (2, 2)],
      players = [(1, \<lparr>x = 100, y = 100, color = (50, 50, 50), score = 1, input = Some JNull\<rparr>),
                 (2, \<lparr>x = 110, y = 100, color = (60, 60, 60), score = 0, input = Some JNull\<rparr>)],
      coins = [], coin_counter = 1, last_coin_spawn = 4, running = False,
      start_time = 0, next_player_id = 3\<rparr>"
  by (simp add: two_players_eq run_defs)

theorem update_moves_players_witness:
  "reachable right_pressed \<and> 2 \<le> length (players right_pressed) \<and>
   map_of (players right_pressed) 1 =
     Some \<lparr>x = 100, y = 100, color = (50, 50, 50), score = 0, input = Some (JStr ''RIGHT'')\<rparr> \<and>
   (\<exists>s' p'. update right_pressed (1 / 10) 1 (0, 0) = Inr s' \<and>
      map_of (players s') 1 = Some p' \<and> x p' = 130 \<and> y p' = 100)"
proof -
  let ?p = "\<lparr>x = 100, y = 100, color = (50, 50, 50), score = 0, input = Some (JStr ''RIGHT'')\<rparr>"
  have two: "2 \<le> length (players right_pressed)" by (simp add: right_pressed_eq)
  have look: "map_of (players right_pressed) 1 = Some ?p" by (simp add: right_pressed_eq)
  from update_moves_players[OF reachable_right_pressed two look, of "1 / 10" 1 "(0, 0)"]
  obtain s' p' where "update right_pressed (1 / 10) 1 (0, 0) = Inr s'"
    and "map_of (players s') 1 = Some p'" and "x p' = 130" and "y p' = 100"
    by (auto simp: config_defs)
  with reachable_right_pressed two look show ?thesis
    by (intro conjI exI[of _ s'] exI[of _ p']) assumption+
qed

theorem coin_collection_witness:
  "reachable two_players \<and> 2 \<le> length (players two_players) \<and>
   (\<exists>s'. update two_players 0 4 (105, 100) = Inr s' \<and> coins s' = [] \<and>
      (\<Sum>e\<leftarrow>players s'. score (snd e)) = 1)"
proof -
  have two: "2 \<le> length (players two_players)" by (simp add: two_players_eq)
  from coin_collection[OF reachable_two_players two, of 0 4 "(105, 100)"]
  obtain s' where s': "update two_players 0 4 (105, 100) = Inr s'"
    and total: "(\<Sum>e\<leftarrow>players s'. score (snd e)) =
       (\<Sum>e\<leftarrow>players two_players. score (snd e)) +
       (int (length (coins (spawn_phase two_players 4 (105, 100)))) - int (length (coins s')))"
    by (elim exE conjE) (rule that)
  from s' have c: "coins s' = []" by (auto simp: two_players_tick)
  have "(\<Sum>e\<leftarrow>players s'. score (snd e)) = 1"
    using total c by (simp add: two_players_eq spawn_phase_def spawn_coin_def config_defs)
  with reachable_two_players two s' c show ?thesis
    by (intro conjI exI[of _ s']) assumption+
qed

theorem first_player_claims_witness:
  "reachable two_players \<and> 2 \<le> length (players two_players) \<and>
   (\<exists>s'. update two_players 0 4 (105, 100) = Inr s' \<and>
      map fst (players s') = [1, 2] \<and>
      collects (snd (players s' ! 0)) \<lparr>coin_id = 0, coin_x = 105, coin_y = 100\<rparr> \<and>
      collects (snd (players s' ! 1)) \<lparr>coin_id = 0, coin_x = 105, coin_y = 100\<rparr> \<and>
      score (snd (players s' ! 0)) = 1 \<and> score (snd (players s' ! 1)) = 0)"
proof -
  have two: "2 \<le> length (players two_players)" by (simp add: two_players_eq)
  from first_player_claims[OF reachable_two_players two, of 0 4 "(105, 100)"]
  obtain s' where s': "update two_players 0 4 (105, 100) = Inr s'"
    and keys: "map fst (players s') = map fst (players two_players)"
    and each: "\<forall>k < length (players two_players).
        score (snd (players s' ! k)) =
          score (snd (players two_players ! k)) +
          int (length (filter
            (\<lambda>c. collects (snd (players s' ! k)) c \<and>
                 (\<forall>j<k. \<not> collects (snd (players s' ! j)) c))
            (coins (spawn_phase two_players 4 (105, 100)))))"
    by (elim exE conjE) (rule that)
  from s' have p': "players s' =
     [(1, \<lparr>x = 100, y = 100, color = (50, 50, 50), score = 1, input = Some JNull\<rparr>),
      (2, \<lparr>x = 110, y = 100, color = (60, 60, 60), score = 0, input = Some JNull\<rparr>)]"
    by (auto simp: two_players_tick)
  have c0: "collects (snd (players s' ! 0)) \<lparr>coin_id = 0, coin_x = 105, coin_y = 100\<rparr>"
    and c1: "collects (snd (players s' ! 1)) \<lparr>coin_id = 0, coin_x = 105, coin_y = 100\<rparr>"
    by (simp_all add: p' collects_iff)
  have cs: "coins (spawn_phase two_players 4 (105, 100)) = [\<lparr>coin_id = 0, coin_x = 105, coin_y = 100\<rparr>]"
    by (simp add: two_players_eq spawn_phase_def spawn_coin_def config_defs)
  have len: "length (players two_players) = 2"
    and old: "score (snd (players two_players ! 0)) = 0" "score (snd (players two_players ! 1)) = 0"
    by (simp_all add: two_players_eq)
  have k0: "score (snd (players s' ! 0)) = 1"
    using each[rule_format, of 0] c0 unfolding cs len old by simp
  have k1: "score (snd (players s' ! 1)) = 0"
    using each[rule_format, of 1] c0 c1 unfolding cs len old by simp
  have k: "map fst (players s') = [1, 2]" using keys by (simp add: two_players_eq)
  from reachable_two_players two s' k c0 c1 k0 k1 show ?thesis
    by (intro conjI exI[of _ s']) assumption+
qed

subsection \<open>The lobby\<close>

text \<open>
  C6. With fewer than two registered players \<^verbatim>\<open>update\<close> returns at once and leaves the
  whole World Model as it is: no position changes, no coin is spawned (the coin list, the
  coin counter and the time of the last spawn are the same), no collision is evaluated;
  and any number of successive calls leaves it the same.
\<close>

theorem update_lobby_noop:
  "length (players s) < 2 \<Longrightarrow>
     update s dt now rnd = Inr s \<and> game_loop s ticks = Inr s"
proof
  assume few: "length (players s) < 2"
  show "update s dt now rnd = Inr s" using few by (rule update_lobby)
  show "game_loop s ticks = Inr s"
  proof (induction ticks)
    case Nil
    show ?case by simp
  next
    case (Cons t ticks)
    obtain dt' now' rnd' where t: "t = (dt', now', rnd')" by (cases t)
    show ?case unfolding t using Cons.IH by (simp add: update_lobby[OF few])
  qed
qed

lemma lobby_state_eq:
  "lobby_state =
     \<lparr>clients = [(1, 1)],
      players = [(1, \<lparr>x = 100, y = 100, color = (50, 50, 50), score = 0,
                       input = Some (JStr ''RIGHT'')\<rparr>)],
      coins = [], coin_counter = 0, last_coin_spawn = 0, running = False,
      start_time = 0, next_player_id = 2\<rparr>"
  by (simp add: lobby_state_def register_def init_def handle_client_message_def Let_def)

theorem update_lobby_noop_witness:
  "length (players lobby_state) < 2 \<and>
   update lobby_state (1 / 60) 10 (400, 300) = Inr lobby_state \<and>
   game_loop lobby_state [(1 / 60, 10, (400, 300)), (1 / 60, 11, (200, 100))] = Inr lobby_state"
proof -
  have few: "length (players lobby_state) < 2" by (simp add: lobby_state_eq)
  from update_lobby_noop[OF few] few show ?thesis by simp
qed

subsection \<open>The wire-level state message\<close>

lemma str_nat_1: "str_nat 1 = ''1''" "str_nat (Suc 0) = ''1''"
  by (subst str_nat.simps, simp add: digits_def)+

lemma reachable_lobby_state: "reachable lobby_state"
  unfolding lobby_state_def
  by (intro reachable_step[OF _ step_message] reachable_step[OF _ step_register] reachable_init)

text \<open>
  C1, as stated, fails: the serialized state of a server with one player holding RIGHT
  carries that pending input in the player's entry.
\<close>

theorem snapshot_carries_input:
  "broadcast_state lobby_state 5 =
     Some (JObj
       [(''t'', JNum 5),
        (''players'', JObj
           [(''1'', JObj [(''x'', JNum 100), (''y'', JNum 100),
                          (''color'', JArr [JNum 50, JNum 50, JNum 50]),
                          (''score'', JNum 0),
                          (''input'', JStr ''RIGHT'')])]),
        (''coins'', JArr []),
        (''status'', JStr ''WAITING_FOR_PLAYERS'')]) \<and>
   jkeys (the (jget (the (jget (the (broadcast_state lobby_state 5)) ''players'')) ''1'')) \<noteq>
     Some [''x'', ''y'', ''color'', ''score'']"
  by (simp add: broadcast_state_def lobby_state_eq dumps_player_def str_nat_1)

lemma jkeys_dumps_player:
  "input p \<noteq> None \<Longrightarrow> jkeys (dumps_player p) = Some [''x'', ''y'', ''color'', ''score'', ''input'']"
  by (auto simp: dumps_player_def split: prod.splits)

lemma jget_dumps_player:
  "jget (dumps_player p) ''x'' = Some (JNum (x p)) \<and>
   jget (dumps_player p) ''y'' = Some (JNum (y p)) \<and>
   jget (dumps_player p) ''color'' =
     Some (JArr [JNum (real_of_int (fst (color p))), JNum (real_of_int (fst (snd (color p)))),
                 JNum (real_of_int (snd (snd (color p))))]) \<and>
   jget (dumps_player p) ''score'' = Some (JNum (real_of_int (score p))) \<and>
   jget (dumps_player p) ''input'' = input p"
  by (auto simp: dumps_player_def split: prod.splits option.splits)

text \<open>
  C1, amended. In every snapshot the server broadcasts, the \<^verbatim>\<open>players\<close> object has one
  entry for each player, in order, under the decimal string of its identity, and each
  entry has exactly the keys \<^verbatim>\<open>x\<close>, \<^verbatim>\<open>y\<close>, \<^verbatim>\<open>color\<close>, \<^verbatim>\<open>score\<close> and \<^verbatim>\<open>input\<close>, with the
  values the World Model holds: the pending input is part of the message.
\<close>

theorem snapshot_player_entries:
  assumes "reachable s" and "broadcast_state s now = Some msg"
  shows "\<exists>entries. jget msg ''players'' = Some (JObj entries) \<and>
     length entries = length (players s) \<and>
     (\<forall>k < length (players s).
        fst (entries ! k) = str_nat (fst (players s ! k)) \<and>
        jkeys (snd (entries ! k)) = Some [''x'', ''y'', ''color'', ''score'', ''input''] \<and>
        jget (snd (entries ! k)) ''x'' = Some (JNum (x (snd (players s ! k)))) \<and>
        jget (snd (entries ! k)) ''y'' = Some (JNum (y (snd (players s ! k)))) \<and>
        jget (snd (entries ! k)) ''score'' =
          Some (JNum (real_of_int (score (snd (players s ! k))))) \<and>
        jget (snd (entries ! k)) ''color'' =
          Some (JArr [JNum (real_of_int (fst (color (snd (players s ! k))))),
                      JNum (real_of_int (fst (snd (color (snd (players s ! k)))))),
                      JNum (real_of_int (snd (snd (color (snd (players s ! k))))))]) \<and>
        jget (snd (entries ! k)) ''input'' = input (snd (players s ! k)) \<and>
        input (snd (players s ! k)) \<noteq> None)"
proof -
  let ?entries = "map (\<lambda>(pid, p). (str_nat pid, dumps_player p)) (players s)"
  have inv: "list_all (\<lambda>(pid, p). input p \<noteq> None) (players s)"
    using reachable_inv[OF assms(1)] by (simp add: server_inv_def)
  have m: "jget msg ''players'' = Some (JObj ?entries)"
    using assms(2) by (auto simp: broadcast_state_def split: if_splits)
  have each: "\<forall>k < length (players s).
        fst (?entries ! k) = str_nat (fst (players s ! k)) \<and>
        jkeys (snd (?entries ! k)) = Some [''x'', ''y'', ''color'', ''score'', ''input''] \<and>
        jget (snd (?entries ! k)) ''x'' = Some (JNum (x (snd (players s ! k)))) \<and>
        jget (snd (?entries ! k)) ''y'' = Some (JNum (y (snd (players s ! k)))) \<and>
        jget (snd (?entries ! k)) ''score'' =
          Some (JNum (real_of_int (score (snd (players s ! k))))) \<and>
        jget (snd (?entries ! k)) ''color'' =
          Some (JArr [JNum (real_of_int (fst (color (snd (players s ! k))))),
                      JNum (real_of_int (fst (snd (color (snd (players s ! k)))))),
                      JNum (real_of_int (snd (snd (color (snd (players s ! k))))))]) \<and>
        jget (snd (?entries ! k)) ''input'' = input (snd (players s ! k)) \<and>
        input (snd (players s ! k)) \<noteq> None"
  proof (intro allI impI)
    fix k assume k: "k < length (players s)"
    obtain pid p where e: "players s ! k = (pid, p)" by (cases "players s ! k")
    have "(pid, p) \<in> set (players s)" using k e by (metis nth_mem)
    then have i: "input p \<noteq> None" using inv by (auto simp: list_all_iff)
    have n: "?entries ! k = (str_nat pid, dumps_player p)" using k e by simp
    show "fst (?entries ! k) = str_nat (fst (players s ! k)) \<and>
        jkeys (snd (?entries ! k)) = Some [''x'', ''y'', ''color'', ''score'', ''input''] \<and>
        jget (snd (?entries ! k)) ''x'' = Some (JNum (x (snd (players s ! k)))) \<and>
        jget (snd (?entries ! k)) ''y'' = Some (JNum (y (snd (players s ! k)))) \<and>
        jget (snd (?entries ! k)) ''score'' =
          Some (JNum (real_of_int (score (snd (players s ! k))))) \<and>
        jget (snd (?entries ! k)) ''color'' =
          Some (JArr [JNum (real_of_int (fst (color (snd (players s ! k))))),
                      JNum (real_of_int (fst (snd (color (snd (players s ! k)))))),
                      JNum (real_of_int (snd (snd (color (snd (players s ! k))))))]) \<and>
        jget (snd (?entries ! k)) ''input'' = input (snd (players s ! k)) \<and>
        input (snd (players s ! k)) \<noteq> None"
      unfolding n e using i jkeys_dumps_player[OF i] jget_dumps_player[of p]
      by (simp del: not_None_eq)
  qed
  show ?thesis by (intro exI[of _ ?entries] conjI m each) simp
qed

theorem snapshot_player_entries_witness:
  "reachable lobby_state \<and>
   (\<exists>msg entries. broadcast_state lobby_state 5 = Some msg \<and>
      jget msg ''players'' = Some (JObj entries) \<and> length entries = 1 \<and>
      fst (entries ! 0) = ''1'' \<and>
      jkeys (snd (entries ! 0)) = Some [''x'', ''y'', ''color'', ''score'', ''input''] \<and>
      jget (snd (entries ! 0)) ''input'' = Some (JStr ''RIGHT''))"
proof -
  obtain msg where msg: "broadcast_state lobby_state 5 = Some msg"
    by (simp add: broadcast_state_def lobby_state_eq)
  from snapshot_player_entries[OF reachable_lobby_state msg]
  obtain entries where 1: "jget msg ''players'' = Some (JObj entries)"
    and 2: "length entries = length (players lobby_state)"
    and 3: "\<forall>k < length (players lobby_state).
        fst (entries ! k) = str_nat (fst (players lobby_state ! k)) \<and>
        jkeys (snd (entries ! k)) = Some [''x'', ''y'', ''color'', ''score'', ''input''] \<and>
        jget (snd (entries ! k)) ''x'' = Some (JNum (x (snd (players lobby_state ! k)))) \<and>
        jget (snd (entries ! k)) ''y'' = Some (JNum (y (snd (players lobby_state ! k)))) \<and>
        jget (snd (entries ! k)) ''score'' =
          Some (JNum (real_of_int (score (snd (players lobby_state ! k))))) \<and>
        jget (snd (entries ! k)) ''color'' =
          Some (JArr [JNum (real_of_int (fst (color (snd (players lobby_state ! k))))),
                      JNum (real_of_int (fst (snd (color (snd (players lobby_state ! k)))))),
                      JNum (real_of_int (snd (snd (color (snd (players lobby_state ! k))))))]) \<and>
        jget (snd (entries ! k)) ''input'' = input (snd (players lobby_state ! k)) \<and>
        input (snd (players lobby_state ! k)) \<noteq> None"
    by (elim exE conjE) (rule that)
  have l: "length entries = 1" using 2 by (simp add: lobby_state_eq)
  have "0 < length (players lobby_state)" by (simp add: lobby_state_eq)
  with 3 have e: "fst (entries ! 0) = str_nat (fst (players lobby_state ! 0))"
    "jkeys (snd (entries ! 0)) = Some [''x'', ''y'', ''color'', ''score'', ''input'']"
    "jget (snd (entries ! 0)) ''input'' = input (snd (players lobby_state ! 0))"
    by blast+
  have f: "fst (entries ! 0) = ''1''" using e(1) by (simp add: lobby_state_eq str_nat_1)
  have i: "jget (snd (entries ! 0)) ''input'' = Some (JStr ''RIGHT'')"
    using e(3) by (simp add: lobby_state_eq)
  from reachable_lobby_state msg 1 l f e(2) i show ?thesis
    by (intro conjI exI[of _ msg] exI[of _ entries]) assumption+
qed

subsection \<open>The client: trimming and interpolation\<close>

lemma trim_buffer_drop:
  "\<exists>n. trim_buffer rt buf = drop n buf \<and> n \<le> length buf - 2 \<and>
       (\<forall>i<n. recv_time (buf ! Suc i) < rt)"
proof (induction rt buf rule: trim_buffer.induct)
  case (1 rt buf)
  show ?case
  proof (cases "length buf > 2 \<and> recv_time (buf ! 1) < rt")
    case True
    with "1" obtain n where n: "trim_buffer rt (tl buf) = drop n (tl buf)"
      "n \<le> length (tl buf) - 2" "\<forall>i<n. recv_time (tl buf ! Suc i) < rt"
      by blast
    have t: "trim_buffer rt buf = trim_buffer rt (tl buf)"
      by (subst trim_buffer.simps) (use True in simp)
    have a: "trim_buffer rt buf = drop (Suc n) buf" using t n(1) by (simp add: drop_Suc)
    have b: "Suc n \<le> length buf - 2" using n(2) True unfolding length_tl by linarith
    have c: "\<forall>i<Suc n. recv_time (buf ! Suc i) < rt"
    proof (intro allI impI)
      fix i assume i: "i < Suc n"
      show "recv_time (buf ! Suc i) < rt"
      proof (cases i)
        case 0
        then show ?thesis using True by simp
      next
        case (Suc j)
        then have j: "j < n" using i by simp
        have "Suc j < length (tl buf)" using j n(2) True by simp
        then have "tl buf ! Suc j = buf ! Suc (Suc j)" by (simp add: nth_tl)
        with n(3) j Suc show ?thesis by auto
      qed
    qed
    from a b c show ?thesis by blast
  next
    case False
    have "trim_buffer rt buf = drop 0 buf" by (subst trim_buffer.simps) (use False in auto)
    then show ?thesis by (intro exI[of _ 0]) simp
  qed
qed

lemma trim_buffer_stops:
  "\<not> (length (trim_buffer rt buf) > 2 \<and> recv_time (trim_buffer rt buf ! 1) < rt)"
proof (induction rt buf rule: trim_buffer.induct)
  case (1 rt buf)
  show ?case
  proof (cases "length buf > 2 \<and> recv_time (buf ! 1) < rt")
    case True
    have "trim_buffer rt buf = trim_buffer rt (tl buf)"
      by (subst trim_buffer.simps) (use True in simp)
    with "1" True show ?thesis by simp
  next
    case False
    have "trim_buffer rt buf = buf" by (subst trim_buffer.simps) (use False in auto)
    with False show ?thesis by simp
  qed
qed

lemma trim_buffer_short: "length buf \<le> 2 \<Longrightarrow> trim_buffer rt buf = buf"
  by (subst trim_buffer.simps) simp

lemma trim_buffer_length: "2 \<le> length buf \<Longrightarrow> 2 \<le> length (trim_buffer rt buf)"
proof -
  assume l: "2 \<le> length buf"
  obtain n where "trim_buffer rt buf = drop n buf" "n \<le> length buf - 2"
    using trim_buffer_drop by blast
  with l show ?thesis by simp
qed

text \<open>
  C7. The buffer that \<^verbatim>\<open>get_render_state\<close> leaves is the given one without its first \<open>n\<close>
  entries, for some \<open>n\<close> that leaves at least two entries of a buffer of two or more. An
  entry is popped only while more than two entries remain and the entry after it was
  received before the render time; so a pair of neighbours whose later entry was
  received at or after the render time is kept whole. The loop stops as soon as two
  entries remain or the second entry is not older than the render time, and a buffer of
  at most two entries is not changed.
\<close>

theorem trim_keeps_bracket:
  "snd (get_render_state now buf) = trim_buffer (now - INTERPOLATION_OFFSET) buf \<and>
   (\<exists>n. trim_buffer rt buf = drop n buf \<and> n \<le> length buf - 2 \<and>
        (\<forall>i<n. 2 < length (drop i buf) \<and> recv_time (buf ! Suc i) < rt) \<and>
        (\<forall>j. Suc j < length buf \<longrightarrow> rt \<le> recv_time (buf ! Suc j) \<longrightarrow> n \<le> j) \<and>
        \<not> (2 < length (drop n buf) \<and> recv_time (drop n buf ! 1) < rt)) \<and>
   (2 \<le> length buf \<longrightarrow> 2 \<le> length (trim_buffer rt buf)) \<and>
   (length buf \<le> 2 \<longrightarrow> trim_buffer rt buf = buf)"
proof -
  have a: "snd (get_render_state now buf) = trim_buffer (now - INTERPOLATION_OFFSET) buf"
    by (simp add: get_render_state_def Let_def)
  obtain n where n: "trim_buffer rt buf = drop n buf" "n \<le> length buf - 2"
    "\<forall>i<n. recv_time (buf ! Suc i) < rt"
    using trim_buffer_drop by blast
  have b: "\<forall>i<n. 2 < length (drop i buf) \<and> recv_time (buf ! Suc i) < rt"
    using n(2,3) by auto
  have c: "\<not> (2 < length (drop n buf) \<and> recv_time (drop n buf ! 1) < rt)"
    using trim_buffer_stops[of rt buf] unfolding n(1) .
  have d: "\<forall>j. Suc j < length buf \<longrightarrow> rt \<le> recv_time (buf ! Suc j) \<longrightarrow> n \<le> j"
    using n(3) by (meson not_le_imp_less not_less)
  have e: "2 \<le> length buf \<longrightarrow> 2 \<le> length (trim_buffer rt buf)"
    by (simp add: trim_buffer_length)
  have f: "length buf \<le> 2 \<longrightarrow> trim_buffer rt buf = buf"
    by (simp add: trim_buffer_short)
  show ?thesis
    by (intro conjI exI[of _ n] a n(1,2) b c d e f)
qed

text \<open>
  C8. With fewer than two buffered entries \<^verbatim>\<open>get_render_state\<close> interpolates nothing: an
  empty buffer gives no players, no coins and the status \<^verbatim>\<open>"CONNECTING"\<close>; a single entry
  gives that entry's players, coins and status as they are. The buffer is left unchanged.
\<close>

theorem few_entries_verbatim:
  "length buf < 2 \<Longrightarrow>
     (buf = [] \<or> (\<exists>e. buf = [e])) \<and>
     (buf = [] \<longrightarrow> get_render_state now buf = ((Map.empty, [], ''CONNECTING''), [])) \<and>
     (\<forall>e. buf = [e] \<longrightarrow>
        get_render_state now buf = ((snap_players e, snap_coins e, snap_status e), [e]))"
  by (cases buf) (auto simp: get_render_state_def trim_buffer_short Let_def)

lemma blend_factor_range: "0 \<le> blend_factor rt prv nxt \<and> blend_factor rt prv nxt \<le> 1"
  by (simp add: blend_factor_def Let_def)

lemma get_render_state_two:
  assumes "2 \<le> length buf"
  shows "get_render_state now buf =
    ((interpolated_players
        (blend_factor (now - INTERPOLATION_OFFSET)
           (trim_buffer (now - INTERPOLATION_OFFSET) buf ! 0)
           (trim_buffer (now - INTERPOLATION_OFFSET) buf ! 1))
        (snap_players (trim_buffer (now - INTERPOLATION_OFFSET) buf ! 0))
        (snap_players (trim_buffer (now - INTERPOLATION_OFFSET) buf ! 1)),
      snap_coins (trim_buffer (now - INTERPOLATION_OFFSET) buf ! 1),
      snap_status (trim_buffer (now - INTERPOLATION_OFFSET) buf ! 1)),
     trim_buffer (now - INTERPOLATION_OFFSET) buf)"
  using trim_buffer_length[OF assms, of "now - INTERPOLATION_OFFSET"]
  by (simp add: get_render_state_def Let_def)

text \<open>
  C2. With at least two buffered entries, \<open>prv\<close> and \<open>nxt\<close> the first two entries left
  after trimming and \<open>alpha\<close> the quotient
  \<open>(render_time - recv_time prv) / (recv_time nxt - recv_time prv)\<close> clamped to \<open>[0, 1]\<close>
  (\<open>1\<close> when the denominator is not positive): coins and status are those of \<open>nxt\<close>,
  and every player in both entries is returned at \<open>prv + (nxt - prv) * alpha\<close> on each
  axis, with the colour and the score of \<open>nxt\<close>; at \<open>alpha = 0\<close> that is the position in
  \<open>prv\<close>, at \<open>alpha = 1\<close> the position in \<open>nxt\<close>.
\<close>

theorem interpolation:
  assumes "2 \<le> length buf"
    and "rt = now - INTERPOLATION_OFFSET"
    and "prv = trim_buffer rt buf ! 0" and "nxt = trim_buffer rt buf ! 1"
    and "alpha = max 0 (min 1 (if recv_time nxt - recv_time prv \<le> 0 then 1
                               else (rt - recv_time prv) / (recv_time nxt - recv_time prv)))"
  shows "\<exists>out. get_render_state now buf =
            ((out, snap_coins nxt, snap_status nxt), trim_buffer rt buf) \<and>
     0 \<le> alpha \<and> alpha \<le> 1 \<and>
     (\<forall>pid pp pn. snap_players prv pid = Some pp \<longrightarrow> snap_players nxt pid = Some pn \<longrightarrow>
        out pid = Some \<lparr>x = x pp + (x pn - x pp) * alpha,
                        y = y pp + (y pn - y pp) * alpha,
                        color = color pn, score = score pn, input = None\<rparr> \<and>
        (alpha = 0 \<longrightarrow> (\<exists>q. out pid = Some q \<and> x q = x pp \<and> y q = y pp)) \<and>
        (alpha = 1 \<longrightarrow> (\<exists>q. out pid = Some q \<and> x q = x pn \<and> y q = y pn)))"
proof -
  let ?out = "interpolated_players alpha (snap_players prv) (snap_players nxt)"
  have al: "alpha = blend_factor rt prv nxt"
    unfolding assms(5) by (simp add: blend_factor_def Let_def)
  have g: "get_render_state now buf = ((?out, snap_coins nxt, snap_status nxt), trim_buffer rt buf)"
    unfolding al assms(2,3,4) by (rule get_render_state_two[OF assms(1)])
  have r: "0 \<le> alpha" "alpha \<le> 1" using blend_factor_range[of rt prv nxt] al by simp_all
  have p: "\<forall>pid pp pn. snap_players prv pid = Some pp \<longrightarrow> snap_players nxt pid = Some pn \<longrightarrow>
        ?out pid = Some \<lparr>x = x pp + (x pn - x pp) * alpha,
                        y = y pp + (y pn - y pp) * alpha,
                        color = color pn, score = score pn, input = None\<rparr> \<and>
        (alpha = 0 \<longrightarrow> (\<exists>q. ?out pid = Some q \<and> x q = x pp \<and> y q = y pp)) \<and>
        (alpha = 1 \<longrightarrow> (\<exists>q. ?out pid = Some q \<and> x q = x pn \<and> y q = y pn))"
    by (simp add: interpolated_players_def linear_interpolate_def)
  show ?thesis by (intro exI[of _ ?out] conjI g r p)
qed

lemma lerp_between:
  assumes "0 \<le> alpha" and "alpha \<le> 1"
  shows "min a b \<le> linear_interpolate a b alpha \<and> linear_interpolate a b alpha \<le> max a b"
proof (cases "a \<le> b")
  case True
  then have "0 \<le> (b - a) * alpha" and "(b - a) * alpha \<le> (b - a) * 1"
    using assms by (simp_all add: mult_left_le)
  with True show ?thesis by (simp add: linear_interpolate_def)
next
  case False
  then have "0 \<le> (a - b) * alpha" and "(a - b) * alpha \<le> (a - b) * 1"
    using assms by (simp_all add: mult_left_le)
  with False show ?thesis by (simp add: linear_interpolate_def algebra_simps)
qed

text \<open>
  C10. With at least two buffered entries, a player in both bracketing entries is
  returned with each coordinate between its coordinates in the two entries.
\<close>

theorem no_extrapolation:
  assumes "2 \<le> length buf"
    and "get_render_state now buf = ((out, cs, st), buf')"
    and "snap_players (buf' ! 0) pid = Some pp"
    and "snap_players (buf' ! 1) pid = Some pn"
  shows "\<exists>q. out pid = Some q \<and>
     min (x pp) (x pn) \<le> x q \<and> x q \<le> max (x pp) (x pn) \<and>
     min (y pp) (y pn) \<le> y q \<and> y q \<le> max (y pp) (y pn)"
proof -
  let ?rt = "now - INTERPOLATION_OFFSET"
  let ?alpha = "blend_factor ?rt (buf' ! 0) (buf' ! 1)"
  from assms(2) get_render_state_two[OF assms(1), of now]
  have b: "buf' = trim_buffer ?rt buf"
    and o: "out = interpolated_players ?alpha (snap_players (buf' ! 0)) (snap_players (buf' ! 1))"
    by auto
  let ?q = "\<lparr>x = linear_interpolate (x pp) (x pn) ?alpha,
             y = linear_interpolate (y pp) (y pn) ?alpha,
             color = color pn, score = score pn, input = None\<rparr>"
  have q: "out pid = Some ?q"
    unfolding o using assms(3,4) by (simp add: interpolated_players_def)
  have r: "0 \<le> ?alpha" "?alpha \<le> 1" using blend_factor_range by simp_all
  show ?thesis
    using q lerp_between[OF r, of "x pp" "x pn"] lerp_between[OF r, of "y pp" "y pn"]
    by (intro exI[of _ ?q]) simp
qed


lemmas snapshot_defs = first_snapshot_def second_snapshot_def third_snapshot_def

theorem interpolation_witness:
  "2 \<le> length [first_snapshot, second_snapshot] \<and>
   (\<exists>out. get_render_state (3 / 20) [first_snapshot, second_snapshot] =
            ((out, [], ''PLAYING''), [first_snapshot, second_snapshot]) \<and>
      out ''3'' = Some \<lparr>x = 150, y = 100, color = (50, 50, 50), score = 2, input = None\<rparr>)"
proof -
  let ?buf = "[first_snapshot, second_snapshot]"
  have t: "trim_buffer (1 / 20) ?buf = ?buf" by (simp add: trim_buffer_short)
  have 1: "2 \<le> length ?buf" by simp
  have 2: "(1 / 20 :: real) = 3 / 20 - INTERPOLATION_OFFSET" by (simp add: config_defs)
  have 3: "first_snapshot = trim_buffer (1 / 20) ?buf ! 0" by (simp add: trim_buffer_short)
  have 4: "second_snapshot = trim_buffer (1 / 20) ?buf ! 1" by (simp add: trim_buffer_short)
  have 5: "(1 / 2 :: real) =
     max 0 (min 1 (if recv_time second_snapshot - recv_time first_snapshot \<le> 0 then 1
        else (1 / 20 - recv_time first_snapshot) /
             (recv_time second_snapshot - recv_time first_snapshot)))"
    by (simp add: snapshot_defs)
  from interpolation[OF 1 2 3 4 5]
  obtain out where g: "get_render_state (3 / 20) ?buf =
      ((out, snap_coins second_snapshot, snap_status second_snapshot), trim_buffer (1 / 20) ?buf)"
    and p: "\<forall>pid pp pn. snap_players first_snapshot pid = Some pp \<longrightarrow>
        snap_players second_snapshot pid = Some pn \<longrightarrow>
        out pid = Some \<lparr>x = x pp + (x pn - x pp) * (1 / 2),
                        y = y pp + (y pn - y pp) * (1 / 2),
                        color = color pn, score = score pn, input = None\<rparr> \<and>
        ((1 / 2 :: real) = 0 \<longrightarrow> (\<exists>q. out pid = Some q \<and> x q = x pp \<and> y q = y pp)) \<and>
        ((1 / 2 :: real) = 1 \<longrightarrow> (\<exists>q. out pid = Some q \<and> x q = x pn \<and> y q = y pn))"
    by (elim exE conjE) (rule that)
  have g': "get_render_state (3 / 20) ?buf = ((out, [], ''PLAYING''), ?buf)"
    using g by (simp add: trim_buffer_short) (simp add: snapshot_defs)
  have "out ''3'' = Some \<lparr>x = 150, y = 100, color = (50, 50, 50), score = 2, input = None\<rparr>"
    using p[rule_format, of "''3''"
        "\<lparr>x = 100, y = 100, color = (50, 50, 50), score = 0, input = Some JNull\<rparr>"
        "\<lparr>x = 200, y = 100, color = (50, 50, 50), score = 2, input = Some JNull\<rparr>"]
    by (simp add: snapshot_defs)
  with 1 g' show ?thesis by (intro conjI exI[of _ out]) assumption+
qed

theorem no_extrapolation_witness:
  "2 \<le> length [first_snapshot, second_snapshot] \<and>
   (\<exists>out q. fst (fst (get_render_state (3 / 25) [first_snapshot, second_snapshot])) = out \<and>
      out ''3'' = Some q \<and> 100 \<le> x q \<and> x q \<le> 200 \<and> y q = 100)"
proof -
  let ?buf = "[first_snapshot, second_snapshot]"
  let ?pp = "\<lparr>x = 100, y = 100, color = (50, 50, 50), score = 0, input = Some JNull\<rparr>"
  let ?pn = "\<lparr>x = 200, y = 100, color = (50, 50, 50), score = 2, input = Some JNull\<rparr>"
  obtain out cs st buf' where g: "get_render_state (3 / 25) ?buf = ((out, cs, st), buf')"
    by (metis prod.exhaust)
  have 1: "2 \<le> length ?buf" by simp
  have b: "buf' = ?buf"
    using g get_render_state_two[OF 1, of "3 / 25"] by (simp add: trim_buffer_short)
  have 3: "snap_players (buf' ! 0) ''3'' = Some ?pp" by (simp add: b snapshot_defs)
  have 4: "snap_players (buf' ! 1) ''3'' = Some ?pn" by (simp add: b snapshot_defs)
  from no_extrapolation[OF 1 g 3 4]
  obtain q where "out ''3'' = Some q" and "100 \<le> x q" and "x q \<le> 200" and "y q = 100"
    by auto
  with 1 g show ?thesis by (intro conjI exI[of _ out] exI[of _ q]) simp_all
qed

theorem few_entries_verbatim_witness:
  "length [first_snapshot] < 2 \<and>
   get_render_state 7 [first_snapshot] =
     ((snap_players first_snapshot, snap_coins first_snapshot, snap_status first_snapshot),
      [first_snapshot]) \<and>
   length ([] :: entry list) < 2 \<and>
   get_render_state 7 [] = ((Map.empty, [], ''CONNECTING''), [])"
proof -
  have 1: "length [first_snapshot] < 2" and 0: "length ([] :: entry list) < 2" by simp_all
  from few_entries_verbatim[OF 1, of 7] few_entries_verbatim[OF 0, of 7] 1 0
  show ?thesis by simp
qed

theorem trim_keeps_bracket_witness:
  "trim_buffer (3 / 20) [first_snapshot, second_snapshot, third_snapshot] =
     [second_snapshot, third_snapshot] \<and>
   snd (get_render_state (1 / 4) [first_snapshot, second_snapshot, third_snapshot]) =
     [second_snapshot, third_snapshot]"
proof -
  let ?buf = "[first_snapshot, second_snapshot, third_snapshot]"
  from trim_keeps_bracket[of "1 / 4" ?buf "3 / 20"]
  obtain n where a: "snd (get_render_state (1 / 4) ?buf) =
        trim_buffer (1 / 4 - INTERPOLATION_OFFSET) ?buf"
    and d: "trim_buffer (3 / 20) ?buf = drop n ?buf"
    and n: "n \<le> length ?buf - 2"
    and stop: "\<not> (2 < length (drop n ?buf) \<and> recv_time (drop n ?buf ! 1) < 3 / 20)"
    by (elim exE conjE) (rule that)
  have "n = 0 \<or> n = 1" using n by auto
  then have n1: "n = 1"
  proof
    assume "n = 0"
    with stop show ?thesis by (simp add: snapshot_defs)
  qed
  have t: "trim_buffer (3 / 20) ?buf = [second_snapshot, third_snapshot]"
    using d n1 by simp
  have "trim_buffer (1 / 4 - INTERPOLATION_OFFSET) ?buf = trim_buffer (3 / 20) ?buf"
    by (simp add: config_defs)
  with a t show ?thesis by simp
qed

end
